theory Spec2Isabelle
  imports Main
begin

section \<open>Values\<close>

text \<open>
  Plain JavaScript data as a tree: what a sanitised body, a header value or a request
  body is once no object is shared. An object is the list of its own enumerable
  properties in enumeration order. Numbers are the integer-valued ones; strings are
  sequences of 8-bit code units.
\<close>

datatype jv =
    JUndefined
  | JNull
  | JBool bool
  | JNum int
  | JStr string
  | JArr "jv list"
  | JObj "(string \<times> jv) list"

text \<open>JavaScript truthiness (\<open>!!v\<close>) of such a value.\<close>

fun truthy :: "jv \<Rightarrow> bool" where
  "truthy JUndefined = False"
| "truthy JNull = False"
| "truthy (JBool b) = b"
| "truthy (JNum n) = (n \<noteq> 0)"
| "truthy (JStr s) = (s \<noteq> [])"
| "truthy (JArr _) = True"
| "truthy (JObj _) = True"

section \<open>Types of the SDK (types.ts)\<close>

record Config =
  apiKey :: string
  baseUrl :: string
  debug :: bool

record RequestLog =
  req_method :: string
  req_url :: string
  req_path :: string
  req_query :: "(string \<times> jv) list"
  req_headers :: "(string \<times> jv) list"
  req_body :: jv
  req_ip :: "string option"

record ResponseLog =
  statusCode :: int
  res_headers :: "(string \<times> jv) list"
  res_body :: jv
  contentType :: "string option"

record ErrorLog =
  err_message :: string
  err_stack :: "string option"
  err_statusCode :: "int option"
  err_body :: jv

record LogEvent =
  timestamp :: string
  duration :: int
  requestId :: "string option"
  request :: RequestLog
  response :: "ResponseLog option"
  error :: "ErrorLog option"

section \<open>The queue (core/sender.ts, class LogQueue)\<close>

definition MAX_QUEUE_SIZE :: nat where "MAX_QUEUE_SIZE = 1000"
definition BATCH_SIZE :: nat where "BATCH_SIZE = 50"
definition FLUSH_INTERVAL :: nat where "FLUSH_INTERVAL = 5000"
definition MAX_RETRIES :: nat where "MAX_RETRIES = 3"
definition INITIAL_RETRY_DELAY :: nat where "INITIAL_RETRY_DELAY = 1000"

text \<open>
  The fields of \<open>LogQueue\<close>, and the dispatch sequences in flight: every call of
  \<open>sendBatch\<close> whose promise has not settled yet, with the place that started it.
  \<open>flushTimer\<close> is \<open>True\<close> while the interval timer is armed.
\<close>

datatype origin = ByFlush | ByShutdown

record LogQueue =
  queue :: "LogEvent list"
  flushTimer :: bool
  isFlushing :: bool
  isShuttingDown :: bool
  inflight :: "(origin \<times> LogEvent list) list"

text \<open>The constructor: empty queue, timer started, shutdown handlers registered.\<close>

definition newLogQueue :: LogQueue where
  "newLogQueue =
     \<lparr>queue = [], flushTimer = True, isFlushing = False, isShuttingDown = False,
      inflight = []\<rparr>"

text \<open>
  \<open>flush()\<close>, up to the call of \<open>sendBatch\<close>: the snapshot is handed over and the
  method returns; the promise settles later (\<open>settle\<close>).
\<close>

definition flush :: "LogQueue \<Rightarrow> LogQueue" where
  "flush s =
     (if isFlushing s \<or> length (queue s) = 0 then s
      else s\<lparr>isFlushing := True, queue := [],
             inflight := inflight s @ [(ByFlush, queue s)]\<rparr>)"

definition push :: "LogEvent \<Rightarrow> LogQueue \<Rightarrow> LogQueue" where
  "push event s =
     (if isShuttingDown s then s
      else
        let s1 = (if length (queue s) \<ge> MAX_QUEUE_SIZE then s\<lparr>queue := tl (queue s)\<rparr> else s);
            s2 = s1\<lparr>queue := queue s1 @ [event]\<rparr>
        in if length (queue s2) \<ge> BATCH_SIZE then flush s2 else s2)"

text \<open>The callback of the interval timer; it only runs while the timer is armed.\<close>

definition timerTick :: "LogQueue \<Rightarrow> LogQueue" where
  "timerTick s =
     (if flushTimer s then (if length (queue s) > 0 then flush s else s) else s)"

text \<open>
  The handler of SIGTERM and SIGINT, up to its \<open>await\<close>: it does not go through
  \<open>flush\<close> and neither reads nor writes \<open>isFlushing\<close>.
\<close>

definition shutdown :: "LogQueue \<Rightarrow> LogQueue" where
  "shutdown s =
     (let s1 = s\<lparr>isShuttingDown := True, flushTimer := False\<rparr>
      in if length (queue s1) > 0
         then s1\<lparr>queue := [], inflight := inflight s1 @ [(ByShutdown, queue s1)]\<rparr>
         else s1)"

text \<open>
  The promise of the \<open>k\<close>-th dispatch sequence in flight settles (resolved or
  rejected): the sequence is over; for one started by \<open>flush\<close> the \<open>finally\<close> handler
  clears \<open>isFlushing\<close>.
\<close>

definition settle :: "nat \<Rightarrow> LogQueue \<Rightarrow> LogQueue" where
  "settle k s =
     (if k < length (inflight s)
      then let s1 = s\<lparr>inflight := take k (inflight s) @ drop (Suc k) (inflight s)\<rparr>
           in (if fst (inflight s ! k) = ByFlush then s1\<lparr>isFlushing := False\<rparr> else s1)
      else s)"

text \<open>What can happen to the queue of a running process, one event of the event loop at a time.\<close>

datatype action = Push LogEvent | Tick | Signal | Settle nat

fun step :: "LogQueue \<Rightarrow> action \<Rightarrow> LogQueue" where
  "step s (Push e) = push e s"
| "step s Tick = timerTick s"
| "step s Signal = shutdown s"
| "step s (Settle k) = settle k s"

definition run :: "action list \<Rightarrow> LogQueue" where
  "run acts = foldl step newLogQueue acts"

text \<open>The number of dispatch sequences in flight that a given place started.\<close>

definition started :: "origin \<Rightarrow> LogQueue \<Rightarrow> nat" where
  "started orig s = length (filter (\<lambda>t. fst t = orig) (inflight s))"

text \<open>A sample event, used at concrete inputs.\<close>

definition sampleRequest :: RequestLog where
  "sampleRequest =
     \<lparr>req_method = ''GET'', req_url = ''/test'', req_path = ''/test'', req_query = [],
      req_headers = [], req_body = JUndefined, req_ip = None\<rparr>"

definition sampleEvent :: "string option \<Rightarrow> LogEvent" where
  "sampleEvent rid =
     \<lparr>timestamp = ''2024-01-01T00:00:00.000Z'', duration = 100, requestId = rid,
      request = sampleRequest, response = None, error = None\<rparr>"

text \<open>
  What holds of the queue in every state the process can reach: the capacity bound, the
  flag \<open>isFlushing\<close> counting the dispatch sequences \<open>flush\<close> started, and what a
  shutdown leaves behind.
\<close>

definition queue_inv :: "LogQueue \<Rightarrow> bool" where
  "queue_inv s =
     (length (queue s) \<le> MAX_QUEUE_SIZE
      \<and> started ByFlush s = (if isFlushing s then 1 else 0)
      \<and> started ByShutdown s \<le> 1
      \<and> (if isShuttingDown s then queue s = [] \<and> \<not> flushTimer s else started ByShutdown s = 0))"

section \<open>Text of numbers and JSON\<close>

text \<open>
  \<open>String(n)\<close> for a natural number and for an integer, every digit written out. This
  is the text JavaScript gives for the integers a number holds exactly (up to
  \<open>2^53\<close> in magnitude); beyond that JavaScript rounds the digits and, from
  \<open>10^21\<close>, writes an exponent, which is outside what is modelled here.
\<close>

fun dec :: "nat \<Rightarrow> string" where
  "dec n = (if n < 10 then [''0123456789'' ! n] else dec (n div 10) @ [''0123456789'' ! (n mod 10)])"

declare dec.simps [simp del]

definition numberToString :: "int \<Rightarrow> string" where
  "numberToString i = (if i < 0 then ''-'' @ dec (nat (- i)) else dec (nat i))"

text \<open>
  \<open>QuoteJSONString\<close> of the language standard, on 8-bit code units: the two-character
  escapes, \<open>\\u00XX\<close> for the other control characters, everything else as it is.
\<close>

definition hexDigit :: "nat \<Rightarrow> char" where
  "hexDigit d = ''0123456789abcdef'' ! d"

definition quoteChar :: "char \<Rightarrow> string" where
  "quoteChar c =
     (if c = CHR 0x08 then [CHR 0x5C, CHR ''b'']
      else if c = CHR 0x09 then [CHR 0x5C, CHR ''t'']
      else if c = CHR 0x0A then [CHR 0x5C, CHR ''n'']
      else if c = CHR 0x0C then [CHR 0x5C, CHR ''f'']
      else if c = CHR 0x0D then [CHR 0x5C, CHR ''r'']
      else if c = CHR 0x22 then [CHR 0x5C, CHR 0x22]
      else if c = CHR 0x5C then [CHR 0x5C, CHR 0x5C]
      else if (of_char c :: nat) < 0x20
        then [CHR 0x5C, CHR ''u'', CHR ''0'', CHR ''0'',
              hexDigit ((of_char c :: nat) div 16), hexDigit ((of_char c :: nat) mod 16)]
      else [c])"

definition quoteJSONString :: "string \<Rightarrow> string" where
  "quoteJSONString s = [CHR 0x22] @ concat (map quoteChar s) @ [CHR 0x22]"

text \<open>\<open>Array.prototype.join\<close> with a separator.\<close>

fun join :: "string \<Rightarrow> string list \<Rightarrow> string" where
  "join sep [] = []"
| "join sep [x] = x"
| "join sep (x # y # ys) = x @ sep @ join sep (y # ys)"

text \<open>
  \<open>JSON.stringify(value)\<close> with no replacer, on tree values. \<open>None\<close> is the result
  \<open>undefined\<close>: an undefined property of an object is left out, an undefined element
  of an array is written \<open>null\<close>.
\<close>

fun JSON_stringify :: "jv \<Rightarrow> string option"
  and serializeElements :: "jv list \<Rightarrow> string list"
  and serializeMembers :: "(string \<times> jv) list \<Rightarrow> string list" where
  "JSON_stringify JUndefined = None"
| "JSON_stringify JNull = Some ''null''"
| "JSON_stringify (JBool b) = Some (if b then ''true'' else ''false'')"
| "JSON_stringify (JNum i) = Some (numberToString i)"
| "JSON_stringify (JStr s) = Some (quoteJSONString s)"
| "JSON_stringify (JArr xs) = Some (''['' @ join '','' (serializeElements xs) @ '']'')"
| "JSON_stringify (JObj kvs) = Some (''{'' @ join '','' (serializeMembers kvs) @ ''}'')"
| "serializeElements [] = []"
| "serializeElements (x # xs) =
     (case JSON_stringify x of None \<Rightarrow> ''null'' | Some s \<Rightarrow> s) # serializeElements xs"
| "serializeMembers [] = []"
| "serializeMembers (kv # kvs) =
     (case JSON_stringify (snd kv) of
        None \<Rightarrow> serializeMembers kvs
      | Some s \<Rightarrow> (quoteJSONString (fst kv) @ '':'' @ s) # serializeMembers kvs)"

section \<open>The dispatcher (core/sender.ts, sendBatch)\<close>

record WireRequest =
  w_method :: string
  w_path :: string
  w_headers :: "(string \<times> jv) list"
  w_body :: "string option"
  w_ip :: "string option"

record WireResponse =
  w_status :: int
  w_res_headers :: "(string \<times> jv) list"
  w_res_body :: "string option"
  duration_ms :: int

record TransformedLogEvent =
  t_timestamp :: string
  trace_id :: string
  t_request :: WireRequest
  t_response :: WireResponse

text \<open>\<open>isValid\<close> of the configuration manager (core/config.ts).\<close>

definition isConfigValid :: "Config \<Rightarrow> bool" where
  "isConfigValid c = (apiKey c \<noteq> [] \<and> baseUrl c \<noteq> [])"

text \<open>
  The trace identifier made up when the event has none:
  \<open>trace_${Date.now()}_${Math.random().toString(36).substr(2, 9)}\<close>, from the clock
  reading \<open>now\<close> and the text \<open>rnd\<close> of \<open>Math.random().toString(36)\<close>.
\<close>

definition generatedTraceId :: "nat \<Rightarrow> string \<Rightarrow> string" where
  "generatedTraceId now rnd = ''trace_'' @ dec now @ ''_'' @ take 9 (drop 2 rnd)"

text \<open>Whether \<open>log.requestId ||\<close> falls through to the generated identifier.\<close>

definition lacksRequestId :: "LogEvent \<Rightarrow> bool" where
  "lacksRequestId log = (case requestId log of None \<Rightarrow> True | Some r \<Rightarrow> r = [])"

text \<open>The function mapped over the batch; \<open>None\<close> in a body or address is \<open>null\<close>.\<close>

definition transformLog :: "nat \<Rightarrow> string \<Rightarrow> LogEvent \<Rightarrow> TransformedLogEvent" where
  "transformLog now rnd log =
     \<lparr>t_timestamp = timestamp log,
      trace_id = (case requestId log of
                    None \<Rightarrow> generatedTraceId now rnd
                  | Some r \<Rightarrow> if r \<noteq> [] then r else generatedTraceId now rnd),
      t_request =
        \<lparr>w_method = req_method (request log),
         w_path = req_path (request log),
         w_headers = req_headers (request log),
         w_body = (if truthy (req_body (request log))
                   then JSON_stringify (req_body (request log)) else None),
         w_ip = (case req_ip (request log) of
                   None \<Rightarrow> None | Some a \<Rightarrow> if a \<noteq> [] then Some a else None)\<rparr>,
      t_response =
        \<lparr>w_status = (case response log of
                       None \<Rightarrow> 0 | Some r \<Rightarrow> if statusCode r \<noteq> 0 then statusCode r else 0),
         w_res_headers = (case response log of None \<Rightarrow> [] | Some r \<Rightarrow> res_headers r),
         w_res_body = (case response log of
                         None \<Rightarrow> None
                       | Some r \<Rightarrow> if truthy (res_body r) then JSON_stringify (res_body r) else None),
         duration_ms = duration log\<rparr>\<rparr>"

text \<open>
  What the dispatcher does to the outside, in order: a POST (URL, Authorization header,
  payload), a retry delay in milliseconds, a warning on the diagnostic channel.
\<close>

datatype effect =
    Post string string TransformedLogEvent
  | Sleep nat
  | Warn string

text \<open>How one \<open>axios.post\<close> settles: a response with its status, or an error with its
  message and, when a response came, its status.\<close>

datatype outcome = Resolved int | Rejected string "int option"

text \<open>
  The outside of a dispatch: the outcome of the \<open>k\<close>-th POST, the \<open>k\<close>-th reading of the
  clock and of the random generator, how many of each were used, and the effects so far.
\<close>

record world =
  net :: "nat \<Rightarrow> outcome"
  date_now :: "nat \<Rightarrow> nat"
  math_random :: "nat \<Rightarrow> string"
  posted :: nat
  drawn :: nat
  effects :: "effect list"

text \<open>How many events of a batch have no identifier of their own.\<close>

definition missingIds :: "LogEvent list \<Rightarrow> nat" where
  "missingIds logs = length (filter lacksRequestId logs)"

text \<open>\<open>logs.map(log => ...)\<close>: only an event without identifier reads clock and generator.\<close>

fun transformLogs :: "world \<Rightarrow> LogEvent list \<Rightarrow> TransformedLogEvent list \<times> world" where
  "transformLogs w [] = ([], w)"
| "transformLogs w (log # logs) =
     (let t = transformLog (date_now w (drawn w)) (math_random w (drawn w)) log;
          w1 = (if lacksRequestId log then w\<lparr>drawn := drawn w + 1\<rparr> else w);
          r = transformLogs w1 logs
      in (t # fst r, snd r))"

text \<open>The URL every event is posted to.\<close>

definition endpointOf :: "Config \<Rightarrow> string" where
  "endpointOf config = baseUrl config @ ''/api/sdk/logs''"

text \<open>
  The loop over the transformed events, one POST after the other; the first rejected
  one ends it (the exception leaves the loop). \<open>Inr\<close> carries \<open>successCount\<close>.
\<close>

fun postEach ::
  "Config \<Rightarrow> TransformedLogEvent list \<Rightarrow> nat \<Rightarrow> world \<Rightarrow> ((string \<times> int option) + nat) \<times> world" where
  "postEach config [] successCount w = (Inr successCount, w)"
| "postEach config (t # ts) successCount w =
     (let w1 = w\<lparr>posted := posted w + 1,
                 effects := effects w @
                   [Post (endpointOf config) (''Bearer '' @ apiKey config) t]\<rparr>
      in case net w (posted w) of
           Rejected message status \<Rightarrow> (Inl (message, status), w1)
         | Resolved status \<Rightarrow>
             postEach config ts
               (if 200 \<le> status \<and> status < 300 then successCount + 1 else successCount) w1)"

text \<open>
  \<open>sendBatch(logs, attempt)\<close>, called with \<open>attempt \<ge> 1\<close>. \<open>Inl\<close> is the rejection of
  its promise with the message of the thrown \<open>Error\<close>.
\<close>

definition failureWarning :: "nat \<Rightarrow> string \<Rightarrow> int option \<Rightarrow> string" where
  "failureWarning attempt message status =
     ''Batch send failed (attempt '' @ dec attempt @ ''): '' @ message @ '' (status: ''
       @ (case status of None \<Rightarrow> ''undefined'' | Some st \<Rightarrow> numberToString st) @ '')''"

function sendBatch :: "Config \<Rightarrow> LogEvent list \<Rightarrow> nat \<Rightarrow> world \<Rightarrow> (string + unit) \<times> world" where
  "sendBatch config logs attempt w =
     (if \<not> isConfigValid config then (Inr (), w)
      else
        let tr = transformLogs w logs;
            sent = postEach config (fst tr) 0 (snd tr)
        in case fst sent of
             Inr successCount \<Rightarrow> (Inr (), snd sent)
           | Inl failure \<Rightarrow>
               let w1 = (snd sent)\<lparr>effects := effects (snd sent) @
                          [Warn (failureWarning attempt (fst failure) (snd failure))]\<rparr>
               in if attempt < MAX_RETRIES
                  then sendBatch config logs (attempt + 1)
                         (w1\<lparr>effects := effects w1 @
                               [Sleep (INITIAL_RETRY_DELAY * 2 ^ (attempt - 1))]\<rparr>)
                  else (Inl (''Failed to send batch after '' @ dec MAX_RETRIES @ '' attempts: ''
                              @ fst failure), w1))"
  by pat_completeness auto
termination
  by (relation "measure (\<lambda>(config, logs, attempt, w). MAX_RETRIES - attempt)") auto

declare sendBatch.simps [simp del]

text \<open>
  The promise chain of \<open>flush\<close>: \<open>sendBatch(logsToSend).catch(warn).finally(...)\<close>.
  The \<open>catch\<close> handler turns a rejection into a warning; the chain carries the state of
  the promise it ends in.
\<close>

definition flushDispatch :: "Config \<Rightarrow> LogEvent list \<Rightarrow> world \<Rightarrow> (string + unit) \<times> world" where
  "flushDispatch config logsToSend w =
     (let r = sendBatch config logsToSend 1 w
      in case fst r of
           Inr u \<Rightarrow> (Inr (), snd r)
         | Inl err \<Rightarrow>
             (Inr (), (snd r)\<lparr>effects := effects (snd r) @
                [Warn (''Failed to send batch after all retries: '' @ err)]\<rparr>))"

text \<open>The drain of the shutdown handler: \<open>try { await sendBatch(logsToSend) } catch { warn }\<close>.\<close>

definition shutdownDispatch :: "Config \<Rightarrow> LogEvent list \<Rightarrow> world \<Rightarrow> (string + unit) \<times> world" where
  "shutdownDispatch config logsToSend w =
     (let r = sendBatch config logsToSend 1 w
      in case fst r of
           Inr u \<Rightarrow> (Inr (), snd r)
         | Inl err \<Rightarrow>
             (Inr (), (snd r)\<lparr>effects := effects (snd r) @
                [Warn (''Failed to flush remaining logs during shutdown: '' @ err)]\<rparr>))"

definition sampleWorld :: "(nat \<Rightarrow> outcome) \<Rightarrow> world" where
  "sampleWorld outcomes =
     \<lparr>net = outcomes, date_now = (\<lambda>k. 1704067200000 + 7 * k),
      math_random = (\<lambda>k. ''0.'' @ dec (k + 1) @ ''k3j9x2mq7'' ), posted = 0, drawn = 0,
      effects = []\<rparr>"

definition sampleConfig :: Config where
  "sampleConfig = \<lparr>apiKey = ''test-key'', baseUrl = ''https://test.com/logs'', debug = False\<rparr>"

section \<open>Objects with identity\<close>

text \<open>
  The input of the sanitizer is an object graph: a composite value is a reference into a
  heap, so that one object can be reached twice and can contain itself. A property is a
  data property or an accessor whose getter throws when it is read. Objects are plain
  objects and arrays, their properties listed in enumeration order.
\<close>

datatype val = VUndefined | VNull | VBool bool | VNum int | VStr string | Ref nat

datatype property = Data val | ThrowingGetter

datatype obj = Array "val list" | Object "(string \<times> property) list"

type_synonym heap = "obj list"

datatype exn = Thrown string

text \<open>
  \<open>Object.entries(obj)\<close>: every own property is read, in order; a getter that throws
  ends it.
\<close>

fun Object_entries :: "(string \<times> property) list \<Rightarrow> exn + (string \<times> val) list" where
  "Object_entries [] = Inr []"
| "Object_entries ((k, Data v) # ps) = map_sum id ((#) (k, v)) (Object_entries ps)"
| "Object_entries ((k, ThrowingGetter) # ps) = Inl (Thrown ''getter'')"

text \<open>A primitive as a tree value; a reference has no tree of its own.\<close>

fun primitive :: "val \<Rightarrow> jv" where
  "primitive VUndefined = JUndefined"
| "primitive VNull = JNull"
| "primitive (VBool b) = JBool b"
| "primitive (VNum n) = JNum n"
| "primitive (VStr s) = JStr s"
| "primitive (Ref a) = JUndefined"

fun isObject :: "val \<Rightarrow> bool" where
  "isObject (Ref a) = True"
| "isObject _ = False"

fun truthyVal :: "val \<Rightarrow> bool" where
  "truthyVal (Ref a) = True"
| "truthyVal v = truthy (primitive v)"

text \<open>An own property is created, or updated where it stands.\<close>

fun defineOwn :: "(string \<times> 'a) list \<Rightarrow> string \<Rightarrow> 'a \<Rightarrow> (string \<times> 'a) list" where
  "defineOwn [] key v = [(key, v)]"
| "defineOwn ((k, x) # kvs) key v =
     (if k = key then (k, v) # kvs else (k, x) # defineOwn kvs key v)"

text \<open>
  \<open>obj[key] = value\<close> on an object that was created as \<open>{}\<close>. The key \<open>__proto__\<close>
  is an accessor of \<open>Object.prototype\<close>: the assignment calls its setter and creates no
  own property (the setter changes the prototype or does nothing, and the own properties,
  which are all that \<open>Object.entries\<close> and \<open>JSON.stringify\<close> read, stay as they are).
\<close>

fun assign :: "(string \<times> 'a) list \<Rightarrow> string \<Rightarrow> 'a \<Rightarrow> (string \<times> 'a) list" where
  "assign kvs key v = (if key = ''__proto__'' then kvs else defineOwn kvs key v)"

section \<open>Regular expressions with the global flag\<close>

text \<open>
  The patterns of \<open>SENSITIVE_PATTERNS\<close> are sequences of literal characters and of an
  optional character out of a class (\<open>[_-]?\<close>); all carry the flags \<open>g\<close> and \<open>i\<close>.
  A \<open>RegExp\<close> object is its pattern and its \<open>lastIndex\<close>.
\<close>

datatype atom = Lit char | Opt "char list"

record RegExp =
  source :: "atom list"
  lastIndex :: nat

text \<open>The canonical form of a code unit under the flag \<open>i\<close>: ASCII letters in upper case.\<close>

definition canonicalize :: "char \<Rightarrow> char" where
  "canonicalize c =
     (if 97 \<le> (of_char c :: nat) \<and> (of_char c :: nat) \<le> 122
      then (case c of Char b0 b1 b2 b3 b4 b5 b6 b7 \<Rightarrow> Char b0 b1 b2 b3 b4 False b6 b7)
      else c)"

text \<open>
  The pattern matched at the start of a string, greedy with backtracking: the number of
  code units the match takes.
\<close>

fun matchHere :: "atom list \<Rightarrow> string \<Rightarrow> nat option" where
  "matchHere [] s = Some 0"
| "matchHere (Lit c # p) [] = None"
| "matchHere (Lit c # p) (x # xs) =
     (if canonicalize x = canonicalize c then map_option Suc (matchHere p xs) else None)"
| "matchHere (Opt cs # p) [] = matchHere p []"
| "matchHere (Opt cs # p) (x # xs) =
     (if canonicalize x \<in> set (map canonicalize cs)
      then (case matchHere p xs of Some n \<Rightarrow> Some (Suc n) | None \<Rightarrow> matchHere p (x # xs))
      else matchHere p (x # xs))"

text \<open>The end index of the leftmost match in \<open>s\<close>, which starts at index \<open>i\<close> of the whole string.\<close>

fun search :: "atom list \<Rightarrow> string \<Rightarrow> nat \<Rightarrow> nat option" where
  "search p [] i = map_option (\<lambda>n. i + n) (matchHere p [])"
| "search p (x # xs) i =
     (case matchHere p (x # xs) of Some n \<Rightarrow> Some (i + n) | None \<Rightarrow> search p xs (Suc i))"

text \<open>
  \<open>RegExp.prototype.test\<close> on a global expression: the search starts at \<open>lastIndex\<close>;
  a match moves \<open>lastIndex\<close> to its end, a failure resets it to 0.
\<close>

definition test :: "RegExp \<Rightarrow> string \<Rightarrow> bool \<times> RegExp" where
  "test r s =
     (if lastIndex r > length s then (False, r\<lparr>lastIndex := 0\<rparr>)
      else case search (source r) (drop (lastIndex r) s) (lastIndex r) of
             Some e \<Rightarrow> (True, r\<lparr>lastIndex := e\<rparr>)
           | None \<Rightarrow> (False, r\<lparr>lastIndex := 0\<rparr>))"

text \<open>\<open>patterns.some(pattern => pattern.test(key))\<close>: it stops at the first match.\<close>

fun some_test :: "RegExp list \<Rightarrow> string \<Rightarrow> bool \<times> RegExp list" where
  "some_test [] key = (False, [])"
| "some_test (r # rs) key =
     (let t = test r key
      in if fst t then (True, snd t # rs)
         else (let u = some_test rs key in (fst u, snd t # snd u)))"

definition regexp :: "atom list \<Rightarrow> RegExp" where
  "regexp p = \<lparr>source = p, lastIndex = 0\<rparr>"

text \<open>The module constant of utils/formatter.ts, as it is when the module has been loaded.\<close>

definition SENSITIVE_PATTERNS :: "RegExp list" where
  "SENSITIVE_PATTERNS =
     [regexp (map Lit ''password''),
      regexp (map Lit ''token''),
      regexp (map Lit ''api'' @ [Opt ''_-''] @ map Lit ''key''),
      regexp (map Lit ''secret''),
      regexp (map Lit ''authorization''),
      regexp (map Lit ''bearer''),
      regexp (map Lit ''auth''),
      regexp (map Lit ''credit'' @ [Opt ''_-''] @ map Lit ''card''),
      regexp (map Lit ''ssn''),
      regexp (map Lit ''social'' @ [Opt ''_-''] @ map Lit ''security'')]"

section \<open>The sanitizer (utils/formatter.ts)\<close>

definition MAX_BODY_SIZE :: nat where "MAX_BODY_SIZE = 10 * 1024"

text \<open>
  What a call of \<open>sanitize\<close> carries along: its own set of visited objects and the
  regular expressions of the module, whose \<open>lastIndex\<close> outlives the call.
\<close>

record walk =
  seen :: "nat set"
  patterns :: "RegExp list"

text \<open>The number of objects of the heap that a walk has not visited yet.\<close>

definition unseen :: "heap \<Rightarrow> walk \<Rightarrow> nat" where
  "unseen h st = card ({..<length h} - seen st)"

text \<open>
  \<open>recursiveSanitize(obj, seen)\<close>, with the \<open>map\<close> over an array and the loop over
  \<open>Object.entries(obj)\<close>. \<open>Object.entries\<close> reads every property first, so a throwing
  getter ends the call before the loop. A reference to no object of the heap is not a
  JavaScript value; the model lets it fail. The recursion ends because every call that
  goes into an object adds it to the visited set, and the heap is finite.
\<close>

function recursiveSanitize :: "heap \<Rightarrow> val \<Rightarrow> walk \<Rightarrow> (exn + jv) \<times> walk"
  and sanitizeItems :: "heap \<Rightarrow> val list \<Rightarrow> walk \<Rightarrow> (exn + jv list) \<times> walk"
  and sanitizeEntries ::
    "heap \<Rightarrow> (string \<times> val) list \<Rightarrow> (string \<times> jv) list \<Rightarrow> walk \<Rightarrow> (exn + (string \<times> jv) list) \<times> walk"
where
  "recursiveSanitize h v st =
     (case v of
        Ref a \<Rightarrow>
          if a \<in> seen st then (Inr (JStr ''[Circular Reference]''), st)
          else if a < length h then
            (case h ! a of
               Array items \<Rightarrow>
                 (let r = sanitizeItems h items (st\<lparr>seen := insert a (seen st)\<rparr>)
                  in (map_sum id JArr (fst r), snd r))
             | Object props \<Rightarrow>
                 (case Object_entries props of
                    Inl e \<Rightarrow> (Inl e, st\<lparr>seen := insert a (seen st)\<rparr>)
                  | Inr entries \<Rightarrow>
                      (let r = sanitizeEntries h entries [] (st\<lparr>seen := insert a (seen st)\<rparr>)
                       in (map_sum id JObj (fst r), snd r))))
          else (Inl (Thrown ''no such object''), st)
      | _ \<Rightarrow> (Inr (primitive v), st))"
| "sanitizeItems h [] st = (Inr [], st)"
| "sanitizeItems h (item # items) st =
     (let r = recursiveSanitize h item st
      in case fst r of
           Inl e \<Rightarrow> (Inl e, snd r)
         | Inr x \<Rightarrow>
             (let rest = sanitizeItems h items (snd r)
              in (map_sum id (\<lambda>xs. x # xs) (fst rest), snd rest)))"
| "sanitizeEntries h [] sanitized st = (Inr sanitized, st)"
| "sanitizeEntries h ((key, value) # entries) sanitized st =
     (let t = some_test (patterns st) key;
          isSensitive = fst t;
          st1 = st\<lparr>patterns := snd t\<rparr>
      in if isSensitive
         then sanitizeEntries h entries (assign sanitized key (JStr ''[REDACTED]'')) st1
         else if truthyVal value \<and> isObject value
         then (let r = recursiveSanitize h value st1
               in case fst r of
                    Inl e \<Rightarrow> (Inl e, snd r)
                  | Inr x \<Rightarrow> sanitizeEntries h entries (assign sanitized key x) (snd r))
         else sanitizeEntries h entries (assign sanitized key (primitive value)) st1)"
  by pat_completeness auto

lemma sanitize_seen_grows:
  "recursiveSanitize_sanitizeItems_sanitizeEntries_dom (Inl (h, v, st)) \<Longrightarrow>
     seen st \<subseteq> seen (snd (recursiveSanitize h v st))"
  "recursiveSanitize_sanitizeItems_sanitizeEntries_dom (Inr (Inl (h, items, st))) \<Longrightarrow>
     seen st \<subseteq> seen (snd (sanitizeItems h items st))"
  "recursiveSanitize_sanitizeItems_sanitizeEntries_dom (Inr (Inr (h, entries, sanitized, st))) \<Longrightarrow>
     seen st \<subseteq> seen (snd (sanitizeEntries h entries sanitized st))"
proof (induct rule: recursiveSanitize_sanitizeItems_sanitizeEntries.pinduct)
  case (1 h v st)
  then show ?case
    by (auto simp: recursiveSanitize.psimps Let_def split: val.splits obj.splits sum.splits)
next
  case (2 h st)
  then show ?case by (simp add: sanitizeItems.psimps)
next
  case (3 h item items st)
  show ?case
  proof (cases "fst (recursiveSanitize h item st)")
    case (Inl e)
    then show ?thesis using 3(1,2) by (simp add: sanitizeItems.psimps Let_def)
  next
    case (Inr x)
    then show ?thesis
      using 3(1,2) 3(3) [OF refl Inr] by (auto simp: sanitizeItems.psimps Let_def)
  qed
next
  case (4 h sanitized st)
  then show ?case by (simp add: sanitizeEntries.psimps)
next
  case (5 h key "value" entries sanitized st)
  let ?t = "some_test (patterns st) key"
  let ?st1 = "st\<lparr>patterns := snd ?t\<rparr>"
  show ?case
  proof (cases "fst ?t")
    case True
    then show ?thesis
      using 5(1) 5(2) [OF refl refl refl True] by (simp add: sanitizeEntries.psimps Let_def)
  next
    case notSensitive: False
    show ?thesis
    proof (cases "truthyVal value \<and> isObject value")
      case False
      then show ?thesis
        using 5(1) 5(5) [OF refl refl refl notSensitive False] notSensitive
        by (auto simp: sanitizeEntries.psimps Let_def)
    next
      case True
      note ih = 5(3) [OF refl refl refl notSensitive True]
      show ?thesis
      proof (cases "fst (recursiveSanitize h value ?st1)")
        case (Inl e)
        then show ?thesis
          using 5(1) ih notSensitive True by (simp add: sanitizeEntries.psimps Let_def)
      next
        case (Inr x)
        then show ?thesis
          using 5(1) ih 5(4) [OF refl refl refl notSensitive True refl Inr] notSensitive True
          by (auto simp: sanitizeEntries.psimps Let_def)
      qed
    qed
  qed
qed

lemma unseen_insert:
  "a < length h \<Longrightarrow> a \<notin> seen st \<Longrightarrow> unseen h (st\<lparr>seen := insert a (seen st)\<rparr>) < unseen h st"
  unfolding unseen_def
  by (intro psubset_card_mono) auto

lemma unseen_mono: "seen st \<subseteq> seen st' \<Longrightarrow> unseen h st' \<le> unseen h st"
  unfolding unseen_def
  by (intro card_mono) auto

lemma recursiveSanitize_total: "All recursiveSanitize_sanitizeItems_sanitizeEntries_dom"
proof (relation "inv_image (less_than <*lex*> less_than)
    (\<lambda>x. case x of
       Inl (h, v, st) \<Rightarrow> (unseen h st, 0)
     | Inr (Inl (h, items, st)) \<Rightarrow> (unseen h st, Suc (length items))
     | Inr (Inr (h, entries, sanitized, st)) \<Rightarrow> (unseen h st, Suc (length entries)))",
    goal_cases)
  case 1
  then show ?case by (intro wf_inv_image wf_lex_prod wf_less_than)
next
  case (2 h v st a items)
  then show ?case by (simp add: unseen_insert)
next
  case (3 h v st a props entries)
  then show ?case by (simp add: unseen_insert)
next
  case (4 h item items st)
  then show ?case by simp
next
  case (5 h item items st r x)
  then show ?case
    using sanitize_seen_grows(1) [of h item st] unseen_mono [of st "snd (recursiveSanitize h item st)" h]
    by (auto simp: less_Suc_eq_le)
next
  case (6 h key "value" entries sanitized st t isSensitive st1)
  then show ?case by (simp add: unseen_def)
next
  case (7 h key "value" entries sanitized st t isSensitive st1)
  then show ?case by (simp add: unseen_def)
next
  case (8 h key "value" entries sanitized st t isSensitive st1 r x)
  then show ?case
    using sanitize_seen_grows(1) [of h "value" st1] unseen_mono [of st1 "snd (recursiveSanitize h value st1)" h]
    by (auto simp: unseen_def less_Suc_eq_le)
next
  case (9 h key "value" entries sanitized st t isSensitive st1)
  then show ?case by (simp add: unseen_def)
qed

termination recursiveSanitize
  by (rule recursiveSanitize_total)


declare recursiveSanitize.simps [simp del]

text \<open>
  \<open>sanitize(obj)\<close>: the result, and the regular expressions as the call leaves them.
\<close>

definition sanitize :: "heap \<Rightarrow> val \<Rightarrow> RegExp list \<Rightarrow> jv \<times> RegExp list" where
  "sanitize h obj pats =
     (if \<not> truthyVal obj \<or> \<not> isObject obj then (primitive obj, pats)
      else
        let r = recursiveSanitize h obj \<lparr>seen = {}, patterns = pats\<rparr>
        in case fst r of
             Inr x \<Rightarrow> (x, patterns (snd r))
           | Inl e \<Rightarrow> (JStr ''[sanitization failed]'', patterns (snd r)))"


section \<open>Serialization and size capping (utils/formatter.ts)\<close>

text \<open>
  The replacer that \<open>safeStringify\<close> hands to \<open>JSON.stringify\<close>, on the values of the
  model: an object seen before becomes the marker, a new one is recorded, \<open>undefined\<close>
  becomes a text.
\<close>

definition replacer :: "val \<Rightarrow> nat set \<Rightarrow> val \<times> nat set" where
  "replacer v sn =
     (case v of
        Ref a \<Rightarrow> if a \<in> sn then (VStr ''[Circular Reference]'', sn) else (Ref a, insert a sn)
      | VUndefined \<Rightarrow> (VStr ''[undefined]'', sn)
      | _ \<Rightarrow> (v, sn))"

text \<open>The number of objects of the heap outside a set of visited ones.\<close>

definition unvisited :: "heap \<Rightarrow> nat set \<Rightarrow> nat" where
  "unvisited h sn = card ({..<length h} - sn)"

text \<open>
  \<open>JSON.stringify(obj, replacer)\<close> as the language standard walks a value: the replacer
  is called on every property value before it is serialized, the top value first.
  \<open>None\<close> is the result \<open>undefined\<close>. The standard's own cycle check never fires here,
  since the replacer has replaced an object met twice before that check.
\<close>

function stringifyProperty :: "heap \<Rightarrow> val \<Rightarrow> nat set \<Rightarrow> (exn + string option) \<times> nat set"
  and stringifyElements :: "heap \<Rightarrow> val list \<Rightarrow> nat set \<Rightarrow> (exn + string list) \<times> nat set"
  and stringifyMembers ::
    "heap \<Rightarrow> (string \<times> property) list \<Rightarrow> nat set \<Rightarrow> (exn + string list) \<times> nat set"
where
  "stringifyProperty h v sn =
     (let replaced = replacer v sn
      in case fst replaced of
           VUndefined \<Rightarrow> (Inr None, snd replaced)
         | VNull \<Rightarrow> (Inr (Some ''null''), snd replaced)
         | VBool b \<Rightarrow> (Inr (Some (if b then ''true'' else ''false'')), snd replaced)
         | VNum n \<Rightarrow> (Inr (Some (numberToString n)), snd replaced)
         | VStr s \<Rightarrow> (Inr (Some (quoteJSONString s)), snd replaced)
         | Ref a \<Rightarrow>
             if a < length h then
               (case h ! a of
                  Array items \<Rightarrow>
                    (let r = stringifyElements h items (snd replaced)
                     in (map_sum id (\<lambda>ss. Some (''['' @ join '','' ss @ '']'')) (fst r), snd r))
                | Object props \<Rightarrow>
                    (let r = stringifyMembers h props (snd replaced)
                     in (map_sum id (\<lambda>ss. Some (''{'' @ join '','' ss @ ''}'')) (fst r), snd r)))
             else (Inl (Thrown ''no such object''), snd replaced))"
| "stringifyElements h [] sn = (Inr [], sn)"
| "stringifyElements h (item # items) sn =
     (let r = stringifyProperty h item sn
      in case fst r of
           Inl e \<Rightarrow> (Inl e, snd r)
         | Inr strP \<Rightarrow>
             (let rest = stringifyElements h items (snd r)
              in (map_sum id (\<lambda>ss. (case strP of None \<Rightarrow> ''null'' | Some s \<Rightarrow> s) # ss) (fst rest),
                  snd rest)))"
| "stringifyMembers h [] sn = (Inr [], sn)"
| "stringifyMembers h ((key, p) # props) sn =
     (case p of
        ThrowingGetter \<Rightarrow> (Inl (Thrown ''getter''), sn)
      | Data v \<Rightarrow>
          (let r = stringifyProperty h v sn
           in case fst r of
                Inl e \<Rightarrow> (Inl e, snd r)
              | Inr strP \<Rightarrow>
                  (let rest = stringifyMembers h props (snd r)
                   in (map_sum id
                         (\<lambda>ss. (case strP of
                                  None \<Rightarrow> ss
                                | Some s \<Rightarrow> (quoteJSONString key @ '':'' @ s) # ss))
                         (fst rest),
                       snd rest))))"
  by pat_completeness auto

lemma replacer_grows: "sn \<subseteq> snd (replacer v sn)"
  by (auto simp: replacer_def split: val.splits)

lemma stringify_seen_grows:
  "stringifyProperty_stringifyElements_stringifyMembers_dom (Inl (h, v, sn)) \<Longrightarrow>
     sn \<subseteq> snd (stringifyProperty h v sn)"
  "stringifyProperty_stringifyElements_stringifyMembers_dom (Inr (Inl (h, items, sn))) \<Longrightarrow>
     sn \<subseteq> snd (stringifyElements h items sn)"
  "stringifyProperty_stringifyElements_stringifyMembers_dom (Inr (Inr (h, props, sn))) \<Longrightarrow>
     sn \<subseteq> snd (stringifyMembers h props sn)"
proof (induct rule: stringifyProperty_stringifyElements_stringifyMembers.pinduct)
  case (1 h v sn)
  have g: "sn \<subseteq> snd (replacer v sn)" by (rule replacer_grows)
  show ?case
  proof (cases "fst (replacer v sn)")
    case (Ref a)
    show ?thesis
    proof (cases "a < length h")
      case False
      then show ?thesis using 1(1) g Ref by (simp add: stringifyProperty.psimps Let_def)
    next
      case True
      show ?thesis
      proof (cases "h ! a")
        case (Array items)
        then show ?thesis
          using 1(1) g Ref True 1(2) [OF refl Ref True Array]
          by (auto simp: stringifyProperty.psimps Let_def)
      next
        case (Object props)
        then show ?thesis
          using 1(1) g Ref True 1(3) [OF refl Ref True Object]
          by (auto simp: stringifyProperty.psimps Let_def)
      qed
    qed
  qed (use 1(1) g in \<open>simp_all add: stringifyProperty.psimps Let_def\<close>)
next
  case (2 h sn)
  then show ?case by (simp add: stringifyElements.psimps)
next
  case (3 h item items sn)
  show ?case
  proof (cases "fst (stringifyProperty h item sn)")
    case (Inl e)
    then show ?thesis using 3(1,2) by (simp add: stringifyElements.psimps Let_def)
  next
    case (Inr x)
    then show ?thesis
      using 3(1,2) 3(3) [OF refl Inr] by (auto simp: stringifyElements.psimps Let_def)
  qed
next
  case (4 h sn)
  then show ?case by (simp add: stringifyMembers.psimps)
next
  case (5 h key p props sn)
  show ?case
  proof (cases p)
    case ThrowingGetter
    then show ?thesis using 5(1) by (simp add: stringifyMembers.psimps)
  next
    case (Data v)
    show ?thesis
    proof (cases "fst (stringifyProperty h v sn)")
      case (Inl e)
      then show ?thesis
        using 5(1) 5(2) [OF Data] Data by (simp add: stringifyMembers.psimps Let_def)
    next
      case (Inr x)
      then show ?thesis
        using 5(1) 5(2) [OF Data] 5(3) [OF Data refl Inr] Data
        by (auto simp: stringifyMembers.psimps Let_def)
    qed
  qed
qed

lemma unvisited_replaced:
  "fst (replacer v sn) = Ref a \<Longrightarrow> a < length h \<Longrightarrow>
   unvisited h (snd (replacer v sn)) < unvisited h sn"
proof -
  assume r: "fst (replacer v sn) = Ref a" and a: "a < length h"
  then have "v = Ref a \<and> a \<notin> sn \<and> snd (replacer v sn) = insert a sn"
    by (auto simp: replacer_def split: val.splits if_splits)
  then show ?thesis
    unfolding unvisited_def using a by (intro psubset_card_mono) auto
qed

lemma unvisited_mono: "sn \<subseteq> sn' \<Longrightarrow> unvisited h sn' \<le> unvisited h sn"
  unfolding unvisited_def
  by (intro card_mono) auto

lemma stringifyProperty_total: "All stringifyProperty_stringifyElements_stringifyMembers_dom"
proof (relation "inv_image (less_than <*lex*> less_than)
    (\<lambda>x. case x of
       Inl (h, v, sn) \<Rightarrow> (unvisited h sn, 0)
     | Inr (Inl (h, items, sn)) \<Rightarrow> (unvisited h sn, Suc (length items))
     | Inr (Inr (h, props, sn)) \<Rightarrow> (unvisited h sn, Suc (length props)))",
    goal_cases)
  case 1
  then show ?case by (intro wf_inv_image wf_lex_prod wf_less_than)
next
  case (2 h v sn replaced a items)
  then show ?case by (simp add: unvisited_replaced)
next
  case (3 h v sn replaced a props)
  then show ?case by (simp add: unvisited_replaced)
next
  case (4 h item items sn)
  then show ?case by simp
next
  case (5 h item items sn r strP)
  then show ?case
    using stringify_seen_grows(1) [of h item sn]
      unvisited_mono [of sn "snd (stringifyProperty h item sn)" h]
    by (auto simp: less_Suc_eq_le)
next
  case (6 h key p props sn v)
  then show ?case by simp
next
  case (7 h key p props sn v r strP)
  then show ?case
    using stringify_seen_grows(1) [of h v sn]
      unvisited_mono [of sn "snd (stringifyProperty h v sn)" h]
    by (auto simp: less_Suc_eq_le)
qed

termination stringifyProperty
  by (rule stringifyProperty_total)

declare stringifyProperty.simps [simp del]

text \<open>\<open>safeStringify(obj)\<close>; \<open>None\<close> is \<open>undefined\<close>, which \<open>JSON.stringify\<close> can return.\<close>

definition safeStringify :: "heap \<Rightarrow> val \<Rightarrow> string option" where
  "safeStringify h obj =
     (case fst (stringifyProperty h obj {}) of
        Inr text \<Rightarrow> text
      | Inl e \<Rightarrow> Some ''[stringify failed]'')"

text \<open>
  \<open>capSize(body)\<close>. Reading \<open>length\<close> of \<open>undefined\<close> throws, which the \<open>catch\<close> of
  \<open>capSize\<close> turns into its own marker.
\<close>

definition capSize :: "heap \<Rightarrow> val \<Rightarrow> val" where
  "capSize h body =
     (if \<not> truthyVal body then body
      else case body of
             VStr s \<Rightarrow>
               if length s > MAX_BODY_SIZE
               then VStr (take MAX_BODY_SIZE s @ ''... [truncated]'')
               else body
           | _ \<Rightarrow>
               (case safeStringify h body of
                  None \<Rightarrow> VStr ''[size capping failed]''
                | Some stringified \<Rightarrow>
                    if length stringified > MAX_BODY_SIZE
                    then VStr (take MAX_BODY_SIZE stringified @ ''... [truncated]'')
                    else body))"

section \<open>Header redaction (utils/formatter.ts)\<close>

text \<open>\<open>String.prototype.toLowerCase\<close> on 8-bit code units (ASCII and Latin-1 letters).\<close>

definition toLowerChar :: "char \<Rightarrow> char" where
  "toLowerChar c =
     (if (65 \<le> (of_char c :: nat) \<and> (of_char c :: nat) \<le> 90)
         \<or> (192 \<le> (of_char c :: nat) \<and> (of_char c :: nat) \<le> 222 \<and> (of_char c :: nat) \<noteq> 215)
      then (case c of Char b0 b1 b2 b3 b4 b5 b6 b7 \<Rightarrow> Char b0 b1 b2 b3 b4 True b6 b7)
      else c)"

definition toLowerCase :: "string \<Rightarrow> string" where
  "toLowerCase s = map toLowerChar s"

fun startsWith :: "string \<Rightarrow> string \<Rightarrow> bool" where
  "startsWith s [] = True"
| "startsWith [] (c # cs) = False"
| "startsWith (x # xs) (c # cs) = (x = c \<and> startsWith xs cs)"

text \<open>\<open>String.prototype.includes\<close>.\<close>

fun string_includes :: "string \<Rightarrow> string \<Rightarrow> bool" where
  "string_includes [] t = (t = [])"
| "string_includes (x # xs) t = (startsWith (x # xs) t \<or> string_includes xs t)"

text \<open>The test of the loop of \<open>sanitizeHeaders\<close> on one header name.\<close>

definition sensitiveHeader :: "string \<Rightarrow> bool" where
  "sensitiveHeader key =
     (let lowerKey = toLowerCase key
      in lowerKey = ''authorization'' \<or> lowerKey = ''cookie'' \<or> lowerKey = ''x-api-key''
         \<or> string_includes lowerKey ''token'' \<or> string_includes lowerKey ''secret'')"

fun sanitizeHeadersLoop :: "(string \<times> jv) list \<Rightarrow> (string \<times> jv) list \<Rightarrow> (string \<times> jv) list" where
  "sanitizeHeadersLoop [] sanitized = sanitized"
| "sanitizeHeadersLoop ((key, v) # entries) sanitized =
     (if sensitiveHeader key
      then sanitizeHeadersLoop entries (assign sanitized key (JStr ''[REDACTED]''))
      else sanitizeHeadersLoop entries (assign sanitized key v))"

definition sanitizeHeaders :: "(string \<times> jv) list \<Rightarrow> (string \<times> jv) list" where
  "sanitizeHeaders headers = sanitizeHeadersLoop headers []"

text \<open>
  The regular expressions of the module after any number of calls: the same patterns,
  each with some \<open>lastIndex\<close>.
\<close>

definition patternsAt :: "nat list \<Rightarrow> RegExp list" where
  "patternsAt idx = map (\<lambda>(r, i). r\<lparr>lastIndex := i\<rparr>) (zip SENSITIVE_PATTERNS idx)"


section \<open>Properties of the queue\<close>

lemma run_snoc: "run (acts @ [a]) = step (run acts) a"
  by (simp add: run_def)

lemma run_append: "run (acts @ bs) = foldl step (run acts) bs"
  by (simp add: run_def)

lemma queue_inv_new: "queue_inv newLogQueue"
  by (simp add: queue_inv_def newLogQueue_def started_def)

lemma queue_inv_flush: "queue_inv s \<Longrightarrow> queue_inv (flush s)"
  by (auto simp: queue_inv_def flush_def started_def split: if_splits)

lemma queue_inv_append:
  "queue_inv s \<Longrightarrow> \<not> isShuttingDown s \<Longrightarrow> length q < MAX_QUEUE_SIZE \<Longrightarrow>
   queue_inv (s\<lparr>queue := q @ [e]\<rparr>)"
  by (simp add: queue_inv_def started_def)

lemma queue_inv_push: "queue_inv s \<Longrightarrow> queue_inv (push e s)"
proof -
  assume inv: "queue_inv s"
  show ?thesis
  proof (cases "isShuttingDown s")
    case True
    then show ?thesis using inv by (simp add: push_def)
  next
    case False
    let ?q = "if length (queue s) \<ge> MAX_QUEUE_SIZE then tl (queue s) else queue s"
    have "length ?q < MAX_QUEUE_SIZE"
      using inv by (auto simp: queue_inv_def MAX_QUEUE_SIZE_def)
    then have s2: "queue_inv (s\<lparr>queue := ?q @ [e]\<rparr>)"
      using inv False by (rule queue_inv_append [rotated 2])
    have "push e s = (if length (?q @ [e]) \<ge> BATCH_SIZE then flush (s\<lparr>queue := ?q @ [e]\<rparr>)
                      else s\<lparr>queue := ?q @ [e]\<rparr>)"
      using False by (simp add: push_def Let_def)
    then show ?thesis using s2 by (simp add: queue_inv_flush)
  qed
qed

lemma queue_inv_tick: "queue_inv s \<Longrightarrow> queue_inv (timerTick s)"
  by (simp add: timerTick_def queue_inv_flush)

lemma queue_inv_shutdown: "queue_inv s \<Longrightarrow> queue_inv (shutdown s)"
  by (auto simp: queue_inv_def shutdown_def started_def Let_def split: if_splits)

lemma filter_remove_nth:
  "k < length xs \<Longrightarrow>
   length (filter P (take k xs @ drop (Suc k) xs)) =
     length (filter P xs) - (if P (xs ! k) then 1 else 0)"
proof -
  assume k: "k < length xs"
  then have "xs = take k xs @ (xs ! k) # drop (Suc k) xs"
    by (simp add: id_take_nth_drop)
  then have "length (filter P xs) = length (filter P (take k xs @ (xs ! k) # drop (Suc k) xs))"
    by simp
  then show ?thesis by simp
qed

lemma started_settle:
  "k < length (inflight s) \<Longrightarrow>
   started orig (settle k s) = started orig s - (if fst (inflight s ! k) = orig then 1 else 0)"
  using filter_remove_nth [of k "inflight s" "\<lambda>t. fst t = orig"]
  by (auto simp add: settle_def started_def Let_def simp del: filter_append)

lemma settle_fields:
  "queue (settle k s) = queue s" "isShuttingDown (settle k s) = isShuttingDown s"
  "flushTimer (settle k s) = flushTimer s"
  "k < length (inflight s) \<Longrightarrow>
     isFlushing (settle k s) = (isFlushing s \<and> fst (inflight s ! k) \<noteq> ByFlush)"
  by (simp_all add: settle_def Let_def)

lemma queue_inv_settle: "queue_inv s \<Longrightarrow> queue_inv (settle k s)"
proof (cases "k < length (inflight s)")
  case False
  then show "queue_inv s \<Longrightarrow> queue_inv (settle k s)" by (simp add: settle_def)
next
  case True
  assume inv: "queue_inv s"
  have "fst (inflight s ! k) = ByFlush \<Longrightarrow> started ByFlush s \<noteq> 0"
    using True nth_mem [of k "inflight s"] by (auto simp: started_def filter_empty_conv)
  then show "queue_inv (settle k s)"
    using inv True unfolding queue_inv_def
    by (cases "fst (inflight s ! k)") (auto simp: started_settle settle_fields split: if_splits)
qed

lemma queue_inv_step: "queue_inv s \<Longrightarrow> queue_inv (step s a)"
  by (cases a) (simp_all add: queue_inv_push queue_inv_tick queue_inv_shutdown queue_inv_settle)

lemma queue_inv_run: "queue_inv (run acts)"
proof (induction acts rule: rev_induct)
  case Nil
  show ?case by (simp add: run_def queue_inv_new)
next
  case (snoc a acts)
  then show ?case by (simp add: run_snoc queue_inv_step)
qed

lemma flush_while_flushing: "isFlushing s \<Longrightarrow> flush s = s"
  by (simp add: flush_def)

lemma push_while_flushing:
  "isFlushing s \<Longrightarrow> \<not> isShuttingDown s \<Longrightarrow>
   push e s = s\<lparr>queue := (if length (queue s) \<ge> MAX_QUEUE_SIZE then tl (queue s) else queue s) @ [e]\<rparr>"
  by (simp add: push_def Let_def flush_def)

lemma pushes_while_flushing:
  "isFlushing s \<Longrightarrow> \<not> isShuttingDown s \<Longrightarrow> length (queue s) \<le> MAX_QUEUE_SIZE \<Longrightarrow>
   foldl step s (map Push es) =
     s\<lparr>queue := drop (length (queue s) + length es - MAX_QUEUE_SIZE) (queue s @ es)\<rparr>"
proof (induction es arbitrary: s)
  case Nil
  then show ?case by simp
next
  case (Cons e es)
  let ?q = "(if length (queue s) \<ge> MAX_QUEUE_SIZE then tl (queue s) else queue s) @ [e]"
  let ?s = "s\<lparr>queue := ?q\<rparr>"
  have p: "push e s = ?s" using Cons.prems by (simp add: push_while_flushing)
  have len: "length ?q \<le> MAX_QUEUE_SIZE" using Cons.prems(3) by (auto simp: MAX_QUEUE_SIZE_def)
  have "foldl step ?s (map Push es) =
          ?s\<lparr>queue := drop (length (queue ?s) + length es - MAX_QUEUE_SIZE) (queue ?s @ es)\<rparr>"
    using Cons.prems(1,2) len by (intro Cons.IH) simp_all
  moreover have "drop (length ?q + length es - MAX_QUEUE_SIZE) (?q @ es) =
                 drop (length (queue s) + length (e # es) - MAX_QUEUE_SIZE) (queue s @ e # es)"
  proof (cases "length (queue s) \<ge> MAX_QUEUE_SIZE")
    case True
    then have eq: "length (queue s) = MAX_QUEUE_SIZE" using Cons.prems(3) by simp
    then have ne: "queue s \<noteq> []" by (auto simp: MAX_QUEUE_SIZE_def)
    then obtain x q where q: "queue s = x # q" by (cases "queue s") auto
    show ?thesis using eq q by simp
  next
    case False
    then show ?thesis by simp
  qed
  ultimately show ?case using p by simp
qed


lemmas queue_ops =
  run_def newLogQueue_def push_def flush_def timerTick_def shutdown_def settle_def
  MAX_QUEUE_SIZE_def BATCH_SIZE_def Let_def

text \<open>
  C1, as the code has it. In every reachable state at most one dispatch sequence started
  by \<open>flush\<close> is in flight, and there is one exactly when \<open>isFlushing\<close> is set; while
  it is in flight a size trigger (\<open>push\<close>) and a timer trigger start nothing. The shutdown
  drain is not bound by the flag; of those, too, at most one is ever in flight.
\<close>

theorem flush_started_at_most_once:
  "started ByFlush (run acts) = (if isFlushing (run acts) then 1 else 0)
   \<and> (isFlushing (run acts) \<longrightarrow>
        inflight (run (acts @ [Push e])) = inflight (run acts)
        \<and> inflight (run (acts @ [Tick])) = inflight (run acts))
   \<and> started ByShutdown (run acts) \<le> 1"
proof -
  have inv: "queue_inv (run acts)" by (rule queue_inv_run)
  have "inflight (push e s) = inflight s" if "isFlushing s" for s
    using that by (simp add: push_def Let_def flush_def)
  moreover have "inflight (timerTick s) = inflight s" if "isFlushing s" for s
    using that by (simp add: timerTick_def flush_def)
  ultimately show ?thesis
    using inv by (simp add: queue_inv_def run_snoc)
qed

text \<open>C1 at a concrete run: one event pushed and flushed by the timer, then both triggers again.\<close>

theorem flush_started_at_most_once_witness:
  "isFlushing (run [Push (sampleEvent None), Tick])
   \<and> started ByFlush (run [Push (sampleEvent None), Tick]) = 1
   \<and> inflight (run ([Push (sampleEvent None), Tick] @ [Push (sampleEvent (Some ''req_1''))]))
       = inflight (run [Push (sampleEvent None), Tick])
   \<and> inflight (run ([Push (sampleEvent None), Tick] @ [Tick]))
       = inflight (run [Push (sampleEvent None), Tick])"
proof -
  have f: "isFlushing (run [Push (sampleEvent None), Tick])"
    by (simp add: queue_ops)
  show ?thesis
    using f flush_started_at_most_once
      [of "[Push (sampleEvent None), Tick]" "sampleEvent (Some ''req_1'')"]
    by simp
qed

text \<open>
  C1 as stated fails for the shutdown drain: with the dispatch sequence of \<open>flush\<close> still
  in flight and one more event queued, a termination signal starts a second sequence.
\<close>

theorem shutdown_drain_second_dispatch:
  "started ByFlush (run [Push (sampleEvent None), Tick, Push (sampleEvent (Some ''req_1''))]) = 1
   \<and> inflight (step (run [Push (sampleEvent None), Tick, Push (sampleEvent (Some ''req_1''))]) Signal)
       = [(ByFlush, [sampleEvent None]), (ByShutdown, [sampleEvent (Some ''req_1'')])]"
  by (simp add: queue_ops started_def)

text \<open>
  C2. While a flush is in flight (so that no further flush occurs) and the queue is not
  shutting down: the queue never holds more than 1000 events; after more than 1000 pushes
  it holds exactly 1000, the most recent ones in push order, the newest last; and a push
  onto a full queue evicts the oldest entry and appends the new one.
\<close>

theorem bounded_queue_drop_oldest:
  "isFlushing (run acts) \<Longrightarrow> \<not> isShuttingDown (run acts) \<Longrightarrow>
   length (queue (run acts)) \<le> MAX_QUEUE_SIZE
   \<and> (length es > MAX_QUEUE_SIZE \<longrightarrow>
        length (queue (run (acts @ map Push es))) = MAX_QUEUE_SIZE
        \<and> queue (run (acts @ map Push es)) = drop (length es - MAX_QUEUE_SIZE) es
        \<and> last (queue (run (acts @ map Push es))) = last es)
   \<and> (length (queue (run acts)) = MAX_QUEUE_SIZE \<longrightarrow>
        queue (run (acts @ [Push e])) = tl (queue (run acts)) @ [e])"
proof -
  assume a: "isFlushing (run acts)" "\<not> isShuttingDown (run acts)"
  have len: "length (queue (run acts)) \<le> MAX_QUEUE_SIZE"
    using queue_inv_run [of acts] by (simp add: queue_inv_def)
  have many: "length (queue (run (acts @ map Push es))) = MAX_QUEUE_SIZE
        \<and> queue (run (acts @ map Push es)) = drop (length es - MAX_QUEUE_SIZE) es
        \<and> last (queue (run (acts @ map Push es))) = last es"
    if n: "length es > MAX_QUEUE_SIZE"
  proof -
    have "queue (run (acts @ map Push es)) =
            drop (length (queue (run acts)) + length es - MAX_QUEUE_SIZE) (queue (run acts) @ es)"
      using pushes_while_flushing [OF a len, of es] by (simp add: run_append)
    also have "\<dots> = drop (length es - MAX_QUEUE_SIZE) es"
      using n by simp
    finally have q: "queue (run (acts @ map Push es)) = drop (length es - MAX_QUEUE_SIZE) es" .
    have "es \<noteq> []" using n by auto
    then show ?thesis using q n by (simp add: last_drop MAX_QUEUE_SIZE_def)
  qed
  have one: "queue (run (acts @ [Push e])) = tl (queue (run acts)) @ [e]"
    if "length (queue (run acts)) = MAX_QUEUE_SIZE"
    using that a by (simp add: run_snoc push_while_flushing)
  show ?thesis using len many one by blast
qed

text \<open>C2 at a concrete run: a full queue of 1000 events, then 1001 more pushes, or one more.\<close>

theorem bounded_queue_drop_oldest_witness:
  "isFlushing (run ([Push (sampleEvent None), Tick] @ map Push (replicate 1000 (sampleEvent None))))
   \<and> \<not> isShuttingDown (run ([Push (sampleEvent None), Tick] @ map Push (replicate 1000 (sampleEvent None))))
   \<and> length (map (\<lambda>n. sampleEvent (Some (replicate n CHR ''r''))) [0..<1001]) > MAX_QUEUE_SIZE
   \<and> length (queue (run ([Push (sampleEvent None), Tick] @ map Push (replicate 1000 (sampleEvent None)))))
       = MAX_QUEUE_SIZE
   \<and> queue (run (([Push (sampleEvent None), Tick] @ map Push (replicate 1000 (sampleEvent None)))
        @ map Push (map (\<lambda>n. sampleEvent (Some (replicate n CHR ''r''))) [0..<1001])))
       = drop (length (map (\<lambda>n. sampleEvent (Some (replicate n CHR ''r''))) [0..<1001]) - MAX_QUEUE_SIZE)
           (map (\<lambda>n. sampleEvent (Some (replicate n CHR ''r''))) [0..<1001])
   \<and> queue (run (([Push (sampleEvent None), Tick] @ map Push (replicate 1000 (sampleEvent None)))
        @ [Push (sampleEvent (Some ''newest''))]))
       = tl (queue (run ([Push (sampleEvent None), Tick] @ map Push (replicate 1000 (sampleEvent None)))))
           @ [sampleEvent (Some ''newest'')]"
proof -
  let ?A = "[Push (sampleEvent None), Tick] @ map Push (replicate 1000 (sampleEvent None))"
  let ?es = "map (\<lambda>n. sampleEvent (Some (replicate n CHR ''r''))) [0..<1001]"
  have f0: "isFlushing (run [Push (sampleEvent None), Tick])"
    and s0: "\<not> isShuttingDown (run [Push (sampleEvent None), Tick])"
    and q0: "queue (run [Push (sampleEvent None), Tick]) = []"
    by (simp_all add: queue_ops)
  have r: "run ?A = (run [Push (sampleEvent None), Tick])
             \<lparr>queue := drop (0 + 1000 - MAX_QUEUE_SIZE) (replicate 1000 (sampleEvent None))\<rparr>"
    using pushes_while_flushing [OF f0 s0, of "replicate 1000 (sampleEvent None)"] q0
    by (simp only: run_append length_replicate list.size append_Nil)
  have f: "isFlushing (run ?A)" and s: "\<not> isShuttingDown (run ?A)"
    using f0 s0 by (simp_all only: r) simp_all
  have l: "length (queue (run ?A)) = MAX_QUEUE_SIZE"
    by (simp only: r) (simp add: MAX_QUEUE_SIZE_def)
  have n: "length ?es > MAX_QUEUE_SIZE"
    by (simp only: length_map length_upt MAX_QUEUE_SIZE_def)
  show ?thesis
    using bounded_queue_drop_oldest [OF f s, of ?es "sampleEvent (Some ''newest'')"] f s l n
    by blast
qed


section \<open>Properties of the dispatcher\<close>







lemmas dispatch_samples =
  sampleConfig_def sampleWorld_def sampleEvent_def sampleRequest_def isConfigValid_def
  lacksRequestId_def missingIds_def endpointOf_def transformLog_def generatedTraceId_def
  failureWarning_def


text \<open>
  C5. With an empty credential or an empty endpoint \<open>sendBatch\<close> resolves at once and
  leaves the outside as it was: no POST, no delay, no warning; so do the two promise
  chains built on it.
\<close>

theorem invalid_config_skips_dispatch:
  "apiKey config = [] \<or> baseUrl config = [] \<Longrightarrow>
   sendBatch config logs attempt w = (Inr (), w)
   \<and> flushDispatch config logs w = (Inr (), w)
   \<and> shutdownDispatch config logs w = (Inr (), w)"
proof -
  assume "apiKey config = [] \<or> baseUrl config = []"
  then have "\<not> isConfigValid config"
    by (auto simp: isConfigValid_def)
  then have "sendBatch config logs n w = (Inr (), w)" for n
    by (subst sendBatch.simps) simp
  then show ?thesis
    by (simp add: flushDispatch_def shutdownDispatch_def)
qed

text \<open>C5 on a batch of fifty events with the credential empty.\<close>

theorem invalid_config_skips_dispatch_witness:
  "(apiKey (sampleConfig\<lparr>apiKey := []\<rparr>) = [] \<or> baseUrl (sampleConfig\<lparr>apiKey := []\<rparr>) = [])
   \<and> sendBatch (sampleConfig\<lparr>apiKey := []\<rparr>) (replicate 50 (sampleEvent (Some ''req_1''))) 1
        (sampleWorld (\<lambda>k. Resolved 200))
       = (Inr (), sampleWorld (\<lambda>k. Resolved 200))
   \<and> effects (snd (flushDispatch (sampleConfig\<lparr>apiKey := []\<rparr>)
        (replicate 50 (sampleEvent (Some ''req_1''))) (sampleWorld (\<lambda>k. Resolved 200)))) = []"
  using invalid_config_skips_dispatch
    [of "sampleConfig\<lparr>apiKey := []\<rparr>" "replicate 50 (sampleEvent (Some ''req_1''))" 1
        "sampleWorld (\<lambda>k. Resolved 200)"]
  by (simp add: sampleWorld_def)

text \<open>
  C9 as stated fails: an event without request identifier, transformed at two clock
  readings, gives two different wire events.
\<close>

theorem generated_trace_id_differs:
  "transformLog 1704067200000 ''0.4fzyo82mvyr'' (sampleEvent None)
     \<noteq> transformLog 1704067201000 ''0.4fzyo82mvyr'' (sampleEvent None)"
  by (simp add: dispatch_samples dec.simps)

text \<open>
  C9, as the code has it. The wire event of an event that carries a request identifier
  depends on the event alone; for an event without one the trace identifier is made from
  the clock and the random generator, and every other field depends on the event alone.
\<close>

theorem wire_event_function_of_event:
  "(\<not> lacksRequestId log \<longrightarrow> transformLog now1 rnd1 log = transformLog now2 rnd2 log)
   \<and> (lacksRequestId log \<longrightarrow>
        trace_id (transformLog now1 rnd1 log)
          = ''trace_'' @ dec now1 @ ''_'' @ take 9 (drop 2 rnd1))
   \<and> transformLog now1 rnd1 log
       = (transformLog now2 rnd2 log)\<lparr>trace_id := trace_id (transformLog now1 rnd1 log)\<rparr>"
  by (simp add: transformLog_def generatedTraceId_def lacksRequestId_def split: option.splits)

text \<open>C9 on an event with a request identifier and on one without.\<close>

theorem wire_event_function_of_event_witness:
  "\<not> lacksRequestId (sampleEvent (Some ''req_1''))
   \<and> transformLog 1704067200000 ''0.4fzyo82mvyr'' (sampleEvent (Some ''req_1''))
       = transformLog 1704067201000 ''0.k3j9x2mq7ab'' (sampleEvent (Some ''req_1''))
   \<and> lacksRequestId (sampleEvent None)
   \<and> trace_id (transformLog 1704067200000 ''0.4fzyo82mvyr'' (sampleEvent None))
       = ''trace_1704067200000_4fzyo82mv''"
  using wire_event_function_of_event
      [of "sampleEvent (Some ''req_1'')" 1704067200000 "''0.4fzyo82mvyr''" 1704067201000
          "''0.k3j9x2mq7ab''"]
    wire_event_function_of_event
      [of "sampleEvent None" 1704067200000 "''0.4fzyo82mvyr''" 1704067201000 "''0.k3j9x2mq7ab''"]
  by (simp add: lacksRequestId_def sampleEvent_def dec.simps)


section \<open>Properties of the formatter\<close>

lemma defineOwn_fresh: "key \<notin> fst ` set kvs \<Longrightarrow> defineOwn kvs key v = kvs @ [(key, v)]"
  by (induction kvs) auto

lemma assign_fresh:
  "key \<notin> fst ` set kvs \<Longrightarrow>
   assign kvs key v = (if key = ''__proto__'' then kvs else kvs @ [(key, v)])"
  by (simp add: defineOwn_fresh)

text \<open>
  The loop of \<open>sanitizeHeaders\<close> on a header map: every header but one named
  \<open>__proto__\<close> comes out, in place.
\<close>

lemma sanitizeHeadersLoop_distinct:
  "distinct (map fst entries) \<Longrightarrow> fst ` set entries \<inter> fst ` set sanitized = {} \<Longrightarrow>
   sanitizeHeadersLoop entries sanitized =
     sanitized @ map (\<lambda>(key, v). (key, if sensitiveHeader key then JStr ''[REDACTED]'' else v))
                   (filter (\<lambda>(key, v). key \<noteq> ''__proto__'') entries)"
proof (induction entries arbitrary: sanitized)
  case Nil
  then show ?case by simp
next
  case (Cons kv entries)
  obtain key v where kv: "kv = (key, v)" by (cases kv)
  let ?v = "if sensitiveHeader key then JStr ''[REDACTED]'' else v"
  let ?next = "if key = ''__proto__'' then sanitized else sanitized @ [(key, ?v)]"
  have fresh: "key \<notin> fst ` set sanitized"
    using Cons.prems(2) kv by auto
  have step: "sanitizeHeadersLoop (kv # entries) sanitized = sanitizeHeadersLoop entries ?next"
    using fresh by (simp add: kv defineOwn_fresh)
  have "fst ` set entries \<inter> fst ` set ?next = {}"
    using Cons.prems kv by auto
  then have "sanitizeHeadersLoop entries ?next =
             ?next @ map (\<lambda>(key, v). (key, if sensitiveHeader key then JStr ''[REDACTED]'' else v))
                       (filter (\<lambda>(key, v). key \<noteq> ''__proto__'') entries)"
    using Cons.prems(1) by (intro Cons.IH) simp_all
  then show ?case using step by (simp add: kv)
qed

lemma sanitizeHeaders_own_properties:
  "distinct (map fst headers) \<Longrightarrow>
   sanitizeHeaders headers =
     map (\<lambda>(key, v). (key, if sensitiveHeader key then JStr ''[REDACTED]'' else v))
       (filter (\<lambda>(key, v). key \<noteq> ''__proto__'') headers)"
  using sanitizeHeadersLoop_distinct [of headers "[]"] by (simp add: sanitizeHeaders_def)

lemma startsWith_iff: "startsWith s t \<longleftrightarrow> (\<exists>post. s = t @ post)"
  by (induction s t rule: startsWith.induct) auto

lemma string_includes_iff: "string_includes s t \<longleftrightarrow> (\<exists>pre post. s = pre @ t @ post)"
proof (induction s)
  case Nil
  then show ?case by simp
next
  case (Cons x xs)
  show ?case
  proof
    assume "string_includes (x # xs) t"
    then consider "startsWith (x # xs) t" | "string_includes xs t" by auto
    then show "\<exists>pre post. x # xs = pre @ t @ post"
    proof cases
      case 1
      then obtain post where "x # xs = t @ post" by (auto simp: startsWith_iff)
      then have "x # xs = [] @ t @ post" by simp
      then show ?thesis by blast
    next
      case 2
      then obtain pre post where "xs = pre @ t @ post" using Cons.IH by auto
      then have "x # xs = (x # pre) @ t @ post" by simp
      then show ?thesis by blast
    qed
  next
    assume "\<exists>pre post. x # xs = pre @ t @ post"
    then obtain pre post where e: "x # xs = pre @ t @ post" by auto
    show "string_includes (x # xs) t"
    proof (cases pre)
      case Nil
      then have "startsWith (x # xs) t" using e by (auto simp: startsWith_iff)
      then show ?thesis by simp
    next
      case (Cons y ys)
      then have "xs = ys @ t @ post" using e by simp
      then have "string_includes xs t" using Cons.IH by blast
      then show ?thesis by simp
    qed
  qed
qed

text \<open>
  C8, as the code has it. On a header map (names distinct) with no header named
  \<open>__proto__\<close>, \<open>sanitizeHeaders\<close> keeps every header in place and replaces by
  \<open>[REDACTED]\<close> the value of exactly those whose lower-cased name is \<open>authorization\<close>,
  \<open>cookie\<close> or \<open>x-api-key\<close>, or contains \<open>token\<close> or \<open>secret\<close>; every other value
  is unchanged.
\<close>

theorem header_redaction:
  "distinct (map fst headers) \<Longrightarrow> ''__proto__'' \<notin> fst ` set headers \<Longrightarrow>
   sanitizeHeaders headers =
     map (\<lambda>(key, v).
           (key,
            if toLowerCase key = ''authorization'' \<or> toLowerCase key = ''cookie''
               \<or> toLowerCase key = ''x-api-key''
               \<or> (\<exists>pre post. toLowerCase key = pre @ ''token'' @ post)
               \<or> (\<exists>pre post. toLowerCase key = pre @ ''secret'' @ post)
            then JStr ''[REDACTED]'' else v))
       headers"
proof -
  assume d: "distinct (map fst headers)" and p: "''__proto__'' \<notin> fst ` set headers"
  have s: "sensitiveHeader key \<longleftrightarrow>
          (toLowerCase key = ''authorization'' \<or> toLowerCase key = ''cookie''
           \<or> toLowerCase key = ''x-api-key''
           \<or> (\<exists>pre post. toLowerCase key = pre @ ''token'' @ post)
           \<or> (\<exists>pre post. toLowerCase key = pre @ ''secret'' @ post))" for key
    unfolding sensitiveHeader_def Let_def string_includes_iff by (rule refl)
  have "filter (\<lambda>(key, v). key \<noteq> ''__proto__'') headers = headers"
    using p by (induction headers) auto
  then show ?thesis
    using sanitizeHeaders_own_properties [OF d] by (simp add: s)
qed

lemmas header_eval = sanitizeHeaders_def sensitiveHeader_def toLowerCase_def toLowerChar_def

text \<open>C8 on three headers, two of them sensitive.\<close>

theorem header_redaction_witness:
  "distinct (map fst [(''Content-Type'', JStr ''application/json''), (''Authorization'', JStr ''Bearer t''),
                      (''X-CSRF-Token'', JStr ''d'')])
   \<and> ''__proto__'' \<notin> fst ` set [(''Content-Type'', JStr ''application/json''),
                                   (''Authorization'', JStr ''Bearer t''), (''X-CSRF-Token'', JStr ''d'')]
   \<and> sanitizeHeaders [(''Content-Type'', JStr ''application/json''), (''Authorization'', JStr ''Bearer t''),
                       (''X-CSRF-Token'', JStr ''d'')]
       = [(''Content-Type'', JStr ''application/json''), (''Authorization'', JStr ''[REDACTED]''),
          (''X-CSRF-Token'', JStr ''[REDACTED]'')]"
proof -
  let ?hs = "[(''Content-Type'', JStr ''application/json''), (''Authorization'', JStr ''Bearer t''),
              (''X-CSRF-Token'', JStr ''d'')]"
  have d: "distinct (map fst ?hs)" by simp
  have p: "''__proto__'' \<notin> fst ` set ?hs" by simp
  have e: "sanitizeHeaders ?hs =
       [(''Content-Type'', JStr ''application/json''), (''Authorization'', JStr ''[REDACTED]''),
        (''X-CSRF-Token'', JStr ''[REDACTED]'')]"
    by (simp add: header_eval)
  show ?thesis using header_redaction [OF d p] d p e by simp
qed

text \<open>
  C8 as stated fails on the header named \<open>api-key\<close>: it passes through, and the
  header the code does redact is \<open>x-api-key\<close>.
\<close>

theorem api_key_header_not_redacted:
  "sanitizeHeaders [(''api-key'', JStr ''k123'')] = [(''api-key'', JStr ''k123'')]
   \<and> sanitizeHeaders [(''x-api-key'', JStr ''k123'')] = [(''x-api-key'', JStr ''[REDACTED]'')]"
  by (simp add: header_eval)





lemma recursiveSanitize_revisit:
  "a \<in> seen st \<Longrightarrow> recursiveSanitize h (Ref a) st = (Inr (JStr ''[Circular Reference]''), st)"
  by (simp add: recursiveSanitize.simps)







lemma stringifyProperty_defined: "fst (stringifyProperty h v sn) \<noteq> Inr None"
proof (cases "fst (replacer v sn)")
  case VUndefined
  then show ?thesis by (auto simp: replacer_def split: val.splits if_splits)
next
  case (Ref a)
  show ?thesis
  proof (cases "a < length h")
    case True
    then show ?thesis
      using Ref
      by (cases "h ! a")
         (auto simp: stringifyProperty.simps Let_def map_sum_def split: sum.splits)
  next
    case False
    then show ?thesis using Ref by (simp add: stringifyProperty.simps Let_def)
  qed
qed (simp_all add: stringifyProperty.simps Let_def)

lemma safeStringify_defined: "\<exists>text. safeStringify h v = Some text"
  using stringifyProperty_defined [of h v "{}"]
  by (cases "fst (stringifyProperty h v {})") (auto simp: safeStringify_def)

lemmas regex_eval = test_def regexp_def SENSITIVE_PATTERNS_def canonicalize_def Let_def
lemmas sanitize_eval = sanitize_def recursiveSanitize.simps

lemma quoteJSONString_length: "length s + 2 \<le> length (quoteJSONString s)"
proof -
  have "length s \<le> length (concat (map quoteChar s))"
    by (induction s) (auto simp: quoteChar_def)
  then show ?thesis by (simp add: quoteJSONString_def)
qed

text \<open>
  An object that holds one long string is cut in its serialized form (the case of the
  module's own test).
\<close>

lemma capSize_large_object:
  "length s > 10240 \<Longrightarrow>
   capSize [Object [(''data'', Data (VStr s))]] (Ref 0)
     = VStr (take 10240 (''{'' @ quoteJSONString ''data'' @ '':'' @ quoteJSONString s @ ''}'')
             @ ''... [truncated]'')"
proof -
  assume l: "length s > 10240"
  have t: "safeStringify [Object [(''data'', Data (VStr s))]] (Ref 0)
             = Some (''{'' @ quoteJSONString ''data'' @ '':'' @ quoteJSONString s @ ''}'')"
    by (simp add: safeStringify_def stringifyProperty.simps replacer_def Let_def)
  have "length (''{'' @ quoteJSONString ''data'' @ '':'' @ quoteJSONString s @ ''}'') > 10240"
    using l quoteJSONString_length [of s] by simp
  then show ?thesis
    unfolding capSize_def t by (simp add: MAX_BODY_SIZE_def del: append.simps take_append)
qed

text \<open>
  C7. A string longer than 10240 code units is cut to its first 10240 followed by
  \<open>... [truncated]\<close>, a shorter one is returned as it is; for an object the length
  tested and the text cut are those of its serialized form, and an object within the
  budget is returned itself.
\<close>

theorem capSize_budget:
  "(length s > 10240 \<longrightarrow> capSize h (VStr s) = VStr (take 10240 s @ ''... [truncated]''))
   \<and> (length s \<le> 10240 \<longrightarrow> capSize h (VStr s) = VStr s)
   \<and> (\<exists>text. safeStringify h (Ref a) = Some text
        \<and> capSize h (Ref a) =
            (if length text > 10240 then VStr (take 10240 text @ ''... [truncated]'') else Ref a))"
proof -
  obtain out where t: "safeStringify h (Ref a) = Some out"
    using safeStringify_defined by blast
  have "capSize h (Ref a) =
          (if length out > 10240 then VStr (take 10240 out @ ''... [truncated]'') else Ref a)"
    by (simp add: capSize_def t MAX_BODY_SIZE_def)
  moreover have "length s > 10240 \<longrightarrow> capSize h (VStr s) = VStr (take 10240 s @ ''... [truncated]'')"
    by (auto simp: capSize_def MAX_BODY_SIZE_def)
  moreover have "length s \<le> 10240 \<longrightarrow> capSize h (VStr s) = VStr s"
    by (auto simp: capSize_def MAX_BODY_SIZE_def)
  ultimately show ?thesis using t by blast
qed

text \<open>C7 on a string of 20000 characters, on one of 100, and on a small object.\<close>

theorem capSize_budget_witness:
  "length (replicate 20000 CHR ''a'') > 10240
   \<and> capSize [] (VStr (replicate 20000 CHR ''a'')) = VStr (replicate 10240 CHR ''a'' @ ''... [truncated]'')
   \<and> length (replicate 100 CHR ''a'') \<le> 10240
   \<and> capSize [] (VStr (replicate 100 CHR ''a'')) = VStr (replicate 100 CHR ''a'')
   \<and> capSize [Object [(''data'', Data (VStr ''aaa''))]] (Ref 0) = Ref 0"
proof -
  have t: "safeStringify [Object [(''data'', Data (VStr ''aaa''))]] (Ref 0)
             = Some (''{'' @ quoteJSONString ''data'' @ '':'' @ quoteJSONString ''aaa'' @ ''}'')"
    by (simp add: safeStringify_def stringifyProperty.simps replacer_def Let_def)
  show ?thesis
    using capSize_budget [of "replicate 20000 CHR ''a''" "[]" 0]
      capSize_budget [of "replicate 100 CHR ''a''" "[]" 0]
      capSize_budget [of "[]" "[Object [(''data'', Data (VStr ''aaa''))]]" 0]
    by (simp add: t quoteJSONString_def quoteChar_def)
qed


text \<open>
  C6. The recursion of the sanitizer ends on every heap, value and set of visited
  objects (every argument is in the domain of the recursion); a visit of an object seen
  before returns the marker without going into it; when the recursion throws,
  \<open>sanitize\<close> returns \<open>[sanitization failed]\<close>, and otherwise what the recursion
  returned; a value that is no object is returned as it is.
\<close>

theorem sanitize_total_and_contained:
  "recursiveSanitize_sanitizeItems_sanitizeEntries_dom (Inl (h, v, st))
   \<and> (a \<in> seen st \<longrightarrow>
        recursiveSanitize h (Ref a) st = (Inr (JStr ''[Circular Reference]''), st))
   \<and> (isObject v \<and> (\<exists>e. fst (recursiveSanitize h v \<lparr>seen = {}, patterns = pats\<rparr>) = Inl e) \<longrightarrow>
        fst (sanitize h v pats) = JStr ''[sanitization failed]'')
   \<and> (isObject v \<and> (\<exists>x. fst (recursiveSanitize h v \<lparr>seen = {}, patterns = pats\<rparr>) = Inr x) \<longrightarrow>
        fst (recursiveSanitize h v \<lparr>seen = {}, patterns = pats\<rparr>) = Inr (fst (sanitize h v pats)))
   \<and> (\<not> isObject v \<longrightarrow> sanitize h v pats = (primitive v, pats))"
proof -
  have "recursiveSanitize_sanitizeItems_sanitizeEntries_dom (Inl (h, v, st))"
    using recursiveSanitize_total by blast
  moreover have "isObject v \<Longrightarrow> truthyVal v"
    by (cases v) simp_all
  ultimately show ?thesis
    by (auto simp: recursiveSanitize_revisit sanitize_def Let_def)
qed

text \<open>
  C6 on an object that contains itself, on an object with a getter that throws, and on
  a number.
\<close>

theorem sanitize_total_and_contained_witness:
  "0 \<in> seen \<lparr>seen = {0}, patterns = SENSITIVE_PATTERNS\<rparr>
   \<and> recursiveSanitize [Object [(''name'', Data (VStr ''john'')), (''self'', Data (Ref 0))]] (Ref 0)
        \<lparr>seen = {0}, patterns = SENSITIVE_PATTERNS\<rparr>
       = (Inr (JStr ''[Circular Reference]''), \<lparr>seen = {0}, patterns = SENSITIVE_PATTERNS\<rparr>)
   \<and> isObject (Ref 0)
   \<and> fst (recursiveSanitize [Object [(''a'', Data (Ref 1))], Object [(''n'', ThrowingGetter)]] (Ref 0)
        \<lparr>seen = {}, patterns = SENSITIVE_PATTERNS\<rparr>) = Inl (Thrown ''getter'')
   \<and> fst (sanitize [Object [(''a'', Data (Ref 1))], Object [(''n'', ThrowingGetter)]] (Ref 0)
        SENSITIVE_PATTERNS) = JStr ''[sanitization failed]''
   \<and> fst (recursiveSanitize [Object [(''name'', Data (VStr ''john'')), (''self'', Data (Ref 0))]] (Ref 0)
        \<lparr>seen = {}, patterns = SENSITIVE_PATTERNS\<rparr>)
       = Inr (JObj [(''name'', JStr ''john''), (''self'', JStr ''[Circular Reference]'')])
   \<and> fst (sanitize [Object [(''name'', Data (VStr ''john'')), (''self'', Data (Ref 0))]] (Ref 0)
        SENSITIVE_PATTERNS)
       = JObj [(''name'', JStr ''john''), (''self'', JStr ''[Circular Reference]'')]
   \<and> \<not> isObject (VNum 123)
   \<and> sanitize [] (VNum 123) SENSITIVE_PATTERNS = (JNum 123, SENSITIVE_PATTERNS)"
proof -
  let ?cyc = "[Object [(''name'', Data (VStr ''john'')), (''self'', Data (Ref 0))]]"
  let ?bad = "[Object [(''a'', Data (Ref 1))], Object [(''n'', ThrowingGetter)]]"
  have bad: "fst (recursiveSanitize ?bad (Ref 0) \<lparr>seen = {}, patterns = SENSITIVE_PATTERNS\<rparr>)
               = Inl (Thrown ''getter'')"
    by (simp add: regex_eval sanitize_eval)
  have cyc: "fst (recursiveSanitize ?cyc (Ref 0) \<lparr>seen = {}, patterns = SENSITIVE_PATTERNS\<rparr>)
               = Inr (JObj [(''name'', JStr ''john''), (''self'', JStr ''[Circular Reference]'')])"
    by (simp add: regex_eval sanitize_eval)
  show ?thesis
    using bad cyc
      sanitize_total_and_contained
        [of ?cyc "Ref 0" "\<lparr>seen = {0}, patterns = SENSITIVE_PATTERNS\<rparr>" 0 SENSITIVE_PATTERNS]
      sanitize_total_and_contained
        [of ?bad "Ref 0" "\<lparr>seen = {0}, patterns = SENSITIVE_PATTERNS\<rparr>" 0 SENSITIVE_PATTERNS]
      sanitize_total_and_contained
        [of "[]" "VNum 123" "\<lparr>seen = {0}, patterns = SENSITIVE_PATTERNS\<rparr>" 0 SENSITIVE_PATTERNS]
    by simp
qed




text \<open>
  C4 at the failing inputs. The patterns carry the flag \<open>g\<close>, so a match leaves
  \<open>lastIndex\<close> behind and the next test of the same key starts after it: of two objects
  with the key \<open>password\<close> in one array the second keeps its value, and so does the
  object \<open>{password: "secret123"}\<close> on the second call of \<open>sanitize\<close>.
\<close>

theorem repeated_sensitive_key_not_redacted:
  "fst (sanitize [Array [Ref 1, Ref 2], Object [(''password'', Data (VStr ''a''))],
                  Object [(''password'', Data (VStr ''b''))]] (Ref 0) SENSITIVE_PATTERNS)
     = JArr [JObj [(''password'', JStr ''[REDACTED]'')], JObj [(''password'', JStr ''b'')]]
   \<and> fst (sanitize [Object [(''password'', Data (VStr ''secret123''))]] (Ref 0) SENSITIVE_PATTERNS)
     = JObj [(''password'', JStr ''[REDACTED]'')]
   \<and> fst (sanitize [Object [(''password'', Data (VStr ''secret123''))]] (Ref 0)
        (snd (sanitize [Object [(''password'', Data (VStr ''secret123''))]] (Ref 0) SENSITIVE_PATTERNS)))
     = JObj [(''password'', JStr ''secret123'')]"
  by (simp add: regex_eval sanitize_eval)


text \<open>
  C4 at the first failing input, with the guard of \<open>sanitize\<close> met: the input is an
  object, and the second \<open>password\<close> of the array comes out unredacted.
\<close>

theorem repeated_sensitive_key_not_redacted_witness:
  "truthyVal (Ref 0) \<and> isObject (Ref 0)
   \<and> fst (sanitize [Array [Ref 1, Ref 2], Object [(''password'', Data (VStr ''a''))],
                  Object [(''password'', Data (VStr ''b''))]] (Ref 0) SENSITIVE_PATTERNS)
     = JArr [JObj [(''password'', JStr ''[REDACTED]'')], JObj [(''password'', JStr ''b'')]]"
  using repeated_sensitive_key_not_redacted by simp

lemma search_None:
  "(\<forall>k \<le> length s. matchHere p (drop k s) = None) \<Longrightarrow> search p s i = None"
proof (induction s arbitrary: i)
  case Nil
  then show ?case by simp
next
  case (Cons x xs)
  have "matchHere p (drop 0 (x # xs)) = None"
    using Cons.prems by blast
  then have h: "matchHere p (x # xs) = None" by simp
  have "matchHere p (drop k xs) = None" if "k \<le> length xs" for k
  proof -
    have "Suc k \<le> length (x # xs)" using that by simp
    then have "matchHere p (drop (Suc k) (x # xs)) = None" using Cons.prems by blast
    then show ?thesis by simp
  qed
  then have "search p xs (Suc i) = None" using Cons.IH by blast
  then show ?case using h by simp
qed

lemma test_no_match:
  "(\<forall>k \<le> length s. matchHere (source r) (drop k s) = None) \<Longrightarrow>
   test r s = (False, r\<lparr>lastIndex := 0\<rparr>)"
proof -
  assume n: "\<forall>k \<le> length s. matchHere (source r) (drop k s) = None"
  have "search (source r) (drop (lastIndex r) s) i = None" if "lastIndex r \<le> length s" for i
  proof (rule search_None, intro allI impI)
    fix k assume "k \<le> length (drop (lastIndex r) s)"
    then have "lastIndex r + k \<le> length s" using that by simp
    then have "matchHere (source r) (drop (lastIndex r + k) s) = None" using n by blast
    then show "matchHere (source r) (drop k (drop (lastIndex r) s)) = None"
      by (simp add: add.commute)
  qed
  then show ?thesis by (simp add: test_def)
qed

lemma all_le_8:
  "(\<forall>k \<le> 8. P k) \<longleftrightarrow> P 0 \<and> P 1 \<and> P 2 \<and> P 3 \<and> P 4 \<and> P 5 \<and> P 6 \<and> P 7 \<and> P (8::nat)"
proof -
  have "(\<forall>k \<le> 8. P k) \<longleftrightarrow> (\<forall>k < Suc (Suc (Suc (Suc (Suc (Suc (Suc (Suc (Suc 0)))))))). P k)"
    by (simp add: less_Suc_eq_le eval_nat_numeral)
  also have "\<dots> \<longleftrightarrow> P 0 \<and> P 1 \<and> P 2 \<and> P 3 \<and> P 4 \<and> P 5 \<and> P 6 \<and> P 7 \<and> P 8"
    unfolding All_less_Suc by (auto simp: eval_nat_numeral)
  finally show ?thesis .
qed

lemma username_resets:
  "some_test (patternsAt [a, b, c, d, e, f, g, h, i, j]) ''username'' = (False, SENSITIVE_PATTERNS)"
proof -
  have t: "test (regexp p\<lparr>lastIndex := n\<rparr>) ''username'' = (False, regexp p)"
    if "\<forall>k \<le> 8. matchHere p (drop k ''username'') = None" for p n
    using test_no_match [of "''username''" "regexp p\<lparr>lastIndex := n\<rparr>"] that
    by (simp add: regexp_def)
  show ?thesis
    unfolding patternsAt_def SENSITIVE_PATTERNS_def
    by (simp add: t all_le_8 canonicalize_def)
qed

text \<open>
  The example of the specification holds on every call: the key \<open>username\<close>, tested
  first, resets every pattern.
\<close>

lemma spec_example_every_invocation:
  "sanitize [Object [(''username'', Data (VStr ''john'')), (''password'', Data (VStr ''secret123''))]]
       (Ref 0) (patternsAt [a, b, c, d, e, f, g, h, i, j])
     = (JObj [(''username'', JStr ''john''), (''password'', JStr ''[REDACTED]'')],
        patternsAt [8, 0, 0, 0, 0, 0, 0, 0, 0, 0])"
proof -
  have p: "some_test SENSITIVE_PATTERNS ''password'' = (True, patternsAt [8, 0, 0, 0, 0, 0, 0, 0, 0, 0])"
    by (simp add: regex_eval patternsAt_def)
  show ?thesis
    by (simp add: sanitize_eval Let_def username_resets p)
qed


end
